theory Spec2Isabelle
  imports Complex_Main "HOL-Library.Sublist" "HOL-Library.FSet"
begin

section \<open>Characters and strings\<close>

text \<open>
  Python strings are sequences of code points. The model uses \<^typ>\<open>string\<close>, so a text is a
  sequence of code points below 256 (Latin-1). On that range the classes used by the
  source are the following (Python 3 \<^verbatim>\<open>str\<close> patterns are Unicode-aware):
  \<^item> \<^verbatim>\<open>\s\<close> and \<^verbatim>\<open>str.strip()\<close>/\<^verbatim>\<open>str.split()\<close>: code points 9-13, 28-32, 133 and 160;
  \<^item> \<^verbatim>\<open>\d\<close>: the ten ASCII digits;
  \<^item> \<^verbatim>\<open>\w\<close>: ASCII letters, digits, underscore and the Latin-1 letters and numerics;
  \<^item> \<^verbatim>\<open>str.lower()\<close>: A-Z and the Latin-1 capitals (192-214, 216-222) move up by 32.
\<close>

definition cp :: "char \<Rightarrow> nat" where
  "cp c = of_char c"

definition is_space :: "char \<Rightarrow> bool" where
  "is_space c = (let n = cp c in (9 \<le> n \<and> n \<le> 13) \<or> (28 \<le> n \<and> n \<le> 32) \<or> n = 133 \<or> n = 160)"

definition is_digit :: "char \<Rightarrow> bool" where
  "is_digit c = (let n = cp c in 48 \<le> n \<and> n \<le> 57)"

definition is_lower_az :: "char \<Rightarrow> bool" where
  "is_lower_az c = (let n = cp c in 97 \<le> n \<and> n \<le> 122)"

definition is_upper_az :: "char \<Rightarrow> bool" where
  "is_upper_az c = (let n = cp c in 65 \<le> n \<and> n \<le> 90)"

definition is_word :: "char \<Rightarrow> bool" where
  "is_word c = (let n = cp c in
     is_digit c \<or> is_lower_az c \<or> is_upper_az c \<or> n = 95 \<or> n = 170 \<or> n = 178 \<or> n = 179 \<or>
     n = 181 \<or> n = 185 \<or> n = 186 \<or> (188 \<le> n \<and> n \<le> 190) \<or> (192 \<le> n \<and> n \<le> 214) \<or>
     (216 \<le> n \<and> n \<le> 246) \<or> 248 \<le> n)"

definition upper_chars :: string where
  "upper_chars = ''ABCDEFGHIJKLMNOPQRSTUVWXYZ'' @
     [CHR 0xC0, CHR 0xC1, CHR 0xC2, CHR 0xC3, CHR 0xC4, CHR 0xC5, CHR 0xC6, CHR 0xC7,
      CHR 0xC8, CHR 0xC9, CHR 0xCA, CHR 0xCB, CHR 0xCC, CHR 0xCD, CHR 0xCE, CHR 0xCF,
      CHR 0xD0, CHR 0xD1, CHR 0xD2, CHR 0xD3, CHR 0xD4, CHR 0xD5, CHR 0xD6,
      CHR 0xD8, CHR 0xD9, CHR 0xDA, CHR 0xDB, CHR 0xDC, CHR 0xDD, CHR 0xDE]"

definition lower_chars :: string where
  "lower_chars = ''abcdefghijklmnopqrstuvwxyz'' @
     [CHR 0xE0, CHR 0xE1, CHR 0xE2, CHR 0xE3, CHR 0xE4, CHR 0xE5, CHR 0xE6, CHR 0xE7,
      CHR 0xE8, CHR 0xE9, CHR 0xEA, CHR 0xEB, CHR 0xEC, CHR 0xED, CHR 0xEE, CHR 0xEF,
      CHR 0xF0, CHR 0xF1, CHR 0xF2, CHR 0xF3, CHR 0xF4, CHR 0xF5, CHR 0xF6,
      CHR 0xF8, CHR 0xF9, CHR 0xFA, CHR 0xFB, CHR 0xFC, CHR 0xFD, CHR 0xFE]"

definition lower_char :: "char \<Rightarrow> char" where
  "lower_char c = (case map_of (zip upper_chars lower_chars) c of Some d \<Rightarrow> d | None \<Rightarrow> c)"

text \<open>\<^verbatim>\<open>str.lower()\<close>\<close>

definition lower :: "string \<Rightarrow> string" where
  "lower s = map lower_char s"

text \<open>\<^verbatim>\<open>str.strip()\<close>: leading and trailing whitespace removed.\<close>

definition strip :: "string \<Rightarrow> string" where
  "strip s = rev (dropWhile is_space (rev (dropWhile is_space s)))"

text \<open>\<^verbatim>\<open>sep.join(parts)\<close>\<close>

fun join :: "string \<Rightarrow> string list \<Rightarrow> string" where
  "join sep [] = []"
| "join sep [x] = x"
| "join sep (x # y # ys) = x @ sep @ join sep (y # ys)"

text \<open>\<^verbatim>\<open>s[i:j]\<close> for offsets \<open>0 \<le> i\<close>, \<open>0 \<le> j\<close>.\<close>

definition slice :: "string \<Rightarrow> nat \<Rightarrow> nat \<Rightarrow> string" where
  "slice s i j = take (j - i) (drop i s)"

section \<open>Chunker (indexing.py)\<close>

text \<open>
  \<^verbatim>\<open>QUESTION_START_RE = re.compile(r"(?:^|\n)\s*(\d+)\s*(\([a-z]\))?\s*(\([ivx]+\))?", re.IGNORECASE)\<close>

  A match object: its span and the three groups; an optional group that did not take part
  in the match is \<open>None\<close>.
\<close>

record re_match =
  m_start :: nat
  m_end :: nat
  group1 :: string
  group2 :: "string option"
  group3 :: "string option"

text \<open>With \<^verbatim>\<open>re.IGNORECASE\<close> the class \<^verbatim>\<open>[a-z]\<close> also takes A-Z, and \<^verbatim>\<open>[ivx]\<close> also I, V, X.\<close>

definition is_az_ic :: "char \<Rightarrow> bool" where
  "is_az_ic c = (is_lower_az c \<or> is_upper_az c)"

definition is_ivx_ic :: "char \<Rightarrow> bool" where
  "is_ivx_ic c = (c \<in> set ''ivxIVX'')"

text \<open>
  \<^verbatim>\<open>(\([a-z]\))?\<close> tried at the head of \<open>xs\<close>: the group if it matches, and the rest of the
  text. The optional group is greedy, so it is taken whenever it matches.
\<close>

definition opt_group2 :: "string \<Rightarrow> string option \<times> string" where
  "opt_group2 xs = (case xs of
       a # b # c # rest \<Rightarrow>
         if a = CHR ''('' \<and> is_az_ic b \<and> c = CHR '')'' then (Some [a, b, c], rest) else (None, xs)
     | _ \<Rightarrow> (None, xs))"

text \<open>
  \<^verbatim>\<open>(\([ivx]+\))?\<close> tried at the head of \<open>xs\<close>. The closing parenthesis is not in the class,
  so only the longest run of \<^verbatim>\<open>[ivx]\<close> can be followed by it.
\<close>

definition opt_group3 :: "string \<Rightarrow> string option \<times> string" where
  "opt_group3 xs = (case xs of
       a # rest \<Rightarrow>
         if a = CHR ''('' \<and> takeWhile is_ivx_ic rest \<noteq> [] then
           (case dropWhile is_ivx_ic rest of
              b # rest' \<Rightarrow>
                if b = CHR '')'' then (Some (a # takeWhile is_ivx_ic rest @ [b]), rest')
                else (None, xs)
            | [] \<Rightarrow> (None, xs))
         else (None, xs)
     | [] \<Rightarrow> (None, xs))"

text \<open>
  \<^verbatim>\<open>\s*(\d+)\s*(\([a-z]\))?\s*(\([ivx]+\))?\<close> matched at the head of \<open>xs\<close>: the number of
  characters consumed and the groups. Whitespace, digits and the opening parenthesis are
  disjoint classes and everything after the digits is optional, so the first path the
  backtracking matcher tries (every repetition as long as possible, every optional group
  present if it matches) is the one it returns; it fails only when no digit follows the
  leading whitespace.
\<close>

definition match_body :: "string \<Rightarrow> (nat \<times> string \<times> string option \<times> string option) option" where
  "match_body xs =
     (let r0 = dropWhile is_space xs;
          ds = takeWhile is_digit r0
      in if ds = [] then None
         else
           let r1 = dropWhile is_space (dropWhile is_digit r0);
               (g2, r2) = opt_group2 r1;
               r3 = dropWhile is_space r2;
               (g3, r4) = opt_group3 r3
           in Some (length xs - length r4, ds, g2, g3))"

text \<open>
  The whole pattern tried at offset \<open>p\<close>. Without \<^verbatim>\<open>re.MULTILINE\<close>, \<^verbatim>\<open>^\<close> holds at offset 0
  only; the other alternative consumes a newline at \<open>p\<close>.
\<close>

definition match_with :: "string \<Rightarrow> nat \<Rightarrow> nat \<Rightarrow> re_match option" where
  "match_with s p skip =
     (case match_body (drop (p + skip) s) of
        None \<Rightarrow> None
      | Some (n, g1, g2, g3) \<Rightarrow>
          Some \<lparr>m_start = p, m_end = p + skip + n, group1 = g1, group2 = g2, group3 = g3\<rparr>)"

definition match_at :: "string \<Rightarrow> nat \<Rightarrow> re_match option" where
  "match_at s p =
     (case (if p = 0 then match_with s p 0 else None) of
        Some m \<Rightarrow> Some m
      | None \<Rightarrow> if p < length s \<and> s ! p = CHR 0x0A then match_with s p 1 else None)"

lemma opt_group3_length: "length (snd (opt_group3 xs)) \<le> length xs"
proof (cases xs)
  case Nil
  then show ?thesis by (simp add: opt_group3_def)
next
  case (Cons a rest)
  show ?thesis
  proof (cases "dropWhile is_ivx_ic rest")
    case Nil
    show ?thesis unfolding opt_group3_def \<open>xs = a # rest\<close> list.case Nil by simp
  next
    case (Cons b rest')
    have "length (dropWhile is_ivx_ic rest) \<le> length rest"
      by (rule length_dropWhile_le)
    then have "length rest' \<le> length rest" unfolding Cons by simp
    then show ?thesis unfolding opt_group3_def \<open>xs = a # rest\<close> list.case Cons by simp
  qed
qed

lemma match_body_consumes:
  assumes "match_body xs = Some (n, g1, g2, g3)"
  shows "0 < n \<and> n \<le> length xs"
proof -
  define r0 where "r0 = dropWhile is_space xs"
  define r1 where "r1 = dropWhile is_space (dropWhile is_digit r0)"
  define r2 where "r2 = snd (opt_group2 r1)"
  define r3 where "r3 = dropWhile is_space r2"
  define r4 where "r4 = snd (opt_group3 r3)"
  have ds: "takeWhile is_digit r0 \<noteq> []" and n: "n = length xs - length r4"
    using assms
    by (auto simp: match_body_def Let_def r0_def r1_def r2_def r3_def r4_def
        split: if_splits prod.splits)
  have l0: "length r0 \<le> length xs"
    unfolding r0_def by (rule length_dropWhile_le)
  have "length (dropWhile is_digit r0) < length r0"
    using ds by (cases r0) (auto simp: le_imp_less_Suc length_dropWhile_le split: if_splits)
  moreover have "length r1 \<le> length (dropWhile is_digit r0)"
    unfolding r1_def by (rule length_dropWhile_le)
  ultimately have l1: "length r1 < length r0" by simp
  have l2: "length r2 \<le> length r1"
    unfolding r2_def opt_group2_def by (auto split: list.splits)
  have l3: "length r3 \<le> length r2"
    unfolding r3_def by (rule length_dropWhile_le)
  have l4: "length r4 \<le> length r3"
    unfolding r4_def by (rule opt_group3_length)
  from l0 l1 l2 l3 l4 n show ?thesis by simp
qed

lemma match_at_span:
  assumes "match_at s p = Some m"
  shows "m_start m = p \<and> p < m_end m \<and> m_end m \<le> length s"
proof -
  from assms have "match_with s p 0 = Some m \<or> (p < length s \<and> match_with s p 1 = Some m)"
    by (auto simp: match_at_def split: option.splits if_splits)
  moreover have "p \<le> length s" if "match_with s p 0 = Some m"
  proof (rule ccontr)
    assume "\<not> p \<le> length s"
    then have "drop (p + 0) s = []" by simp
    then show False using that by (simp add: match_with_def match_body_def)
  qed
  ultimately obtain skip where m: "match_with s p skip = Some m" and sk: "p + skip \<le> length s"
    by fastforce
  then obtain n g1 g2 g3 where b: "match_body (drop (p + skip) s) = Some (n, g1, g2, g3)"
    and m_eq: "m = \<lparr>m_start = p, m_end = p + skip + n, group1 = g1, group2 = g2, group3 = g3\<rparr>"
    by (auto simp: match_with_def split: option.splits)
  from match_body_consumes [OF b] sk m_eq show ?thesis by auto
qed

text \<open>
  \<^verbatim>\<open>QUESTION_START_RE.finditer(text)\<close>: the leftmost match at or after \<open>p\<close>, then the search
  goes on from the end of that match (every match is non-empty).
\<close>

function finditer_from :: "string \<Rightarrow> nat \<Rightarrow> re_match list" where
  "finditer_from s p =
     (if length s < p then []
      else case match_at s p of
             Some m \<Rightarrow> m # finditer_from s (m_end m)
           | None \<Rightarrow> finditer_from s (Suc p))"
  by pat_completeness auto
termination
proof (relation "measure (\<lambda>(s, p). Suc (length s) - p)")
  show "wf (measure (\<lambda>(s, p). Suc (length s) - p))" by simp
next
  fix s p m
  assume "\<not> length s < p" "match_at s p = Some m"
  then show "((s, m_end m), (s, p)) \<in> measure (\<lambda>(s, p). Suc (length s) - p)"
    using match_at_span [of s p m] by auto
next
  fix s p
  assume "\<not> length s < p"
  then show "((s, Suc p), (s, p)) \<in> measure (\<lambda>(s, p). Suc (length s) - p)" by auto
qed

declare finditer_from.simps [simp del]

definition finditer :: "string \<Rightarrow> re_match list" where
  "finditer s = finditer_from s 0"

record chunk =
  chunk_text :: string
  chunk_qid :: "string option"

text \<open>\<^verbatim>\<open>_format_qid\<close>: a group is appended when it is truthy (matched and not empty).\<close>

definition truthy :: "string option \<Rightarrow> bool" where
  "truthy g = (case g of None \<Rightarrow> False | Some v \<Rightarrow> v \<noteq> [])"

definition format_qid :: "re_match \<Rightarrow> string" where
  "format_qid m =
     (let parts = [group1 m];
          parts = (if truthy (group2 m) then parts @ [the (group2 m)] else parts);
          parts = (if truthy (group3 m) then parts @ [the (group3 m)] else parts)
      in strip (join '' '' parts))"

text \<open>
  The loop of \<^verbatim>\<open>_split_into_chunks\<close> over \<^verbatim>\<open>enumerate(matches)\<close>: the list argument is the
  matches from the current one on, so its second element is \<^verbatim>\<open>matches[i + 1]\<close>.
\<close>

fun chunk_loop :: "string \<Rightarrow> re_match list \<Rightarrow> chunk list" where
  "chunk_loop s [] = []"
| "chunk_loop s (m # ms) =
     (let start = m_start m;
          end = (case ms of m' # _ \<Rightarrow> m_start m' | [] \<Rightarrow> length s);
          ctext = strip (slice s start end)
      in if ctext = [] then chunk_loop s ms
         else \<lparr>chunk_text = ctext, chunk_qid = Some (format_qid m)\<rparr> # chunk_loop s ms)"

definition split_into_chunks :: "string \<Rightarrow> chunk list" where
  "split_into_chunks s =
     (let matches = finditer s
      in if matches = [] then [\<lparr>chunk_text = strip s, chunk_qid = None\<rparr>]
         else chunk_loop s matches)"


section \<open>Text normalizer and query terms (indexing.py)\<close>

text \<open>
  A literal of a pattern compiled with \<^verbatim>\<open>re.IGNORECASE\<close>, given in lower case: a character of
  the text matches a letter of the literal when its lower-case form is that letter. The
  result is the text after the literal.
\<close>

fun lit_ic :: "string \<Rightarrow> string \<Rightarrow> string option" where
  "lit_ic [] xs = Some xs"
| "lit_ic (l # ls) [] = None"
| "lit_ic (l # ls) (x # xs) = (if lower_char x = l then lit_ic ls xs else None)"

text \<open>
  \<^verbatim>\<open>\b\<close> between a previous character (\<open>pw\<close>: there is one and it is a word character) and
  the text \<open>xs\<close> that follows.
\<close>

definition word_boundary :: "bool \<Rightarrow> string \<Rightarrow> bool" where
  "word_boundary pw xs = (pw \<noteq> (case xs of [] \<Rightarrow> False | x # _ \<Rightarrow> is_word x))"

text \<open>The two patterns of \<^verbatim>\<open>_normalize_text\<close>: \<^verbatim>\<open>\breal\s*-\s*time\b\<close> and \<^verbatim>\<open>\breal\s+time\b\<close>.\<close>

datatype pat = Real_dash_time | Real_space_time

text \<open>
  The middle of a pattern, \<^verbatim>\<open>\s*-\s*\<close> or \<^verbatim>\<open>\s+\<close>. What follows a whitespace run in the
  pattern (a hyphen, the letter t) is not whitespace, so only the longest run can match.
\<close>

fun match_sep :: "pat \<Rightarrow> string \<Rightarrow> string option" where
  "match_sep Real_dash_time xs =
     (case dropWhile is_space xs of
        c # r \<Rightarrow> if c = CHR ''-'' then Some (dropWhile is_space r) else None
      | [] \<Rightarrow> None)"
| "match_sep Real_space_time xs =
     (if takeWhile is_space xs = [] then None else Some (dropWhile is_space xs))"

text \<open>A pattern tried at the head of \<open>xs\<close>; the result is the text after the match.\<close>

definition match_pat :: "pat \<Rightarrow> bool \<Rightarrow> string \<Rightarrow> string option" where
  "match_pat pt pw xs =
     (if word_boundary pw xs then
        (case lit_ic ''real'' xs of
           None \<Rightarrow> None
         | Some r1 \<Rightarrow>
             (case match_sep pt r1 of
                None \<Rightarrow> None
              | Some r2 \<Rightarrow>
                  (case lit_ic ''time'' r2 of
                     None \<Rightarrow> None
                   | Some r3 \<Rightarrow> if word_boundary True r3 then Some r3 else None)))
      else None)"

lemma lit_ic_length: "lit_ic ls xs = Some r \<Longrightarrow> length xs = length ls + length r"
  by (induction ls xs rule: lit_ic.induct) (auto split: if_splits)

lemma match_sep_length: "match_sep pt xs = Some r \<Longrightarrow> length r \<le> length xs"
proof (cases pt)
  case Real_dash_time
  assume a: "match_sep pt xs = Some r"
  have l: "length (dropWhile is_space xs) \<le> length xs" by (rule length_dropWhile_le)
  from a Real_dash_time obtain c r' where d: "dropWhile is_space xs = c # r'"
    and r: "r = dropWhile is_space r'"
    by (auto split: list.splits if_splits)
  have "length r \<le> length r'" unfolding r by (rule length_dropWhile_le)
  with l d show ?thesis by simp
next
  case Real_space_time
  assume "match_sep pt xs = Some r"
  with Real_space_time have "r = dropWhile is_space xs" by (auto split: if_splits)
  then show ?thesis by (simp add: length_dropWhile_le)
qed

lemma match_pat_shorter:
  assumes "match_pat pt pw xs = Some r"
  shows "length r < length xs"
proof -
  from assms obtain r1 r2 where 1: "lit_ic ''real'' xs = Some r1"
    and 2: "match_sep pt r1 = Some r2" and 3: "lit_ic ''time'' r2 = Some r"
    by (auto simp: match_pat_def split: if_splits option.splits)
  from lit_ic_length [OF 1] lit_ic_length [OF 3] match_sep_length [OF 2]
  show ?thesis by simp
qed

text \<open>
  \<^verbatim>\<open>re.sub(pattern, "real-time", text, flags=re.IGNORECASE)\<close>: the text is scanned from the
  left; a match is replaced and the scan goes on after it, any other character is
  copied. After a match the previous character is its final letter e, a word character.
\<close>

function re_sub :: "pat \<Rightarrow> bool \<Rightarrow> string \<Rightarrow> string" where
  "re_sub pt pw [] = []"
| "re_sub pt pw (c # cs) =
     (case match_pat pt pw (c # cs) of
        Some rest \<Rightarrow> ''real-time'' @ re_sub pt True rest
      | None \<Rightarrow> c # re_sub pt (is_word c) cs)"
  by pat_completeness auto
termination
proof (relation "measure (\<lambda>(pt, pw, xs). length xs)")
  show "wf (measure (\<lambda>(pt, pw, xs). length xs))" by simp
next
  fix pt pw c cs rest
  assume "match_pat pt pw (c # cs) = Some rest"
  then show "((pt, True, rest), (pt, pw, c # cs)) \<in> measure (\<lambda>(pt, pw, xs). length xs)"
    using match_pat_shorter [of pt pw "c # cs" rest] by simp
next
  fix pt pw c cs
  show "((pt, is_word c, cs), (pt, pw, c # cs)) \<in> measure (\<lambda>(pt, pw, xs). length xs)"
    by simp
qed

definition normalize_text :: "string \<Rightarrow> string" where
  "normalize_text s = re_sub Real_space_time False (re_sub Real_dash_time False s)"

text \<open>\<^verbatim>\<open>re.findall\<close> of a pattern \<^verbatim>\<open>[class]+\<close>: the maximal runs of the class, left to right.\<close>

function findall :: "(char \<Rightarrow> bool) \<Rightarrow> string \<Rightarrow> string list" where
  "findall P [] = []"
| "findall P (c # cs) =
     (if P c then takeWhile P (c # cs) # findall P (dropWhile P cs) else findall P cs)"
  by pat_completeness auto
termination
  by (relation "measure (\<lambda>(P, xs). length xs)") (auto simp: le_imp_less_Suc length_dropWhile_le)

text \<open>The class \<^verbatim>\<open>[A-Za-z0-9\-]\<close>.\<close>

definition is_term_char :: "char \<Rightarrow> bool" where
  "is_term_char c = (is_upper_az c \<or> is_lower_az c \<or> is_digit c \<or> c = CHR ''-'')"

definition QUERY_NOISE_TERMS :: "string fset" where
  "QUERY_NOISE_TERMS = {|''purpose'', ''function'', ''role''|}"

definition ACRONYM_EXPANSIONS :: "(string \<times> string) list" where
  "ACRONYM_EXPANSIONS =
     [(''alu'', ''arithmetic logic unit''),
      (''cu'', ''control unit''),
      (''ram'', ''random access memory''),
      (''rom'', ''read only memory''),
      (''cpu'', ''central processing unit'')]"

text \<open>The loop of \<^verbatim>\<open>_extract_query_terms\<close>; a Python set is a finite set.\<close>

fun add_terms :: "string list \<Rightarrow> string fset \<Rightarrow> string fset" where
  "add_terms [] terms = terms"
| "add_terms (token # rest) terms =
     (if length token < 2 then add_terms rest terms
      else if token |\<in>| QUERY_NOISE_TERMS then add_terms rest terms
      else add_terms rest (finsert token terms))"

definition extract_query_terms :: "string \<Rightarrow> string fset" where
  "extract_query_terms question_text = add_terms (findall is_term_char (lower question_text)) {||}"

text \<open>
  \<^verbatim>\<open>_expand_query\<close>. Python does not fix the order in which a set is iterated; the order is
  the parameter \<open>iter\<close>, which lists the elements of a set.
\<close>

definition expand_query :: "(string fset \<Rightarrow> string list) \<Rightarrow> string \<Rightarrow> string fset \<Rightarrow> string" where
  "expand_query iter question_text terms =
     (let expansions = map (\<lambda>t. the (map_of ACRONYM_EXPANSIONS t))
                           (filter (\<lambda>t. t \<in> fst ` set ACRONYM_EXPANSIONS) (iter terms))
      in if expansions = [] then question_text
         else question_text @ '' '' @ join '' '' expansions)"

text \<open>
  \<^verbatim>\<open>_keyword_boost\<close>. \<open>keyword_hit\<close> is the body of its loop: whether the term increments
  \<^verbatim>\<open>hits\<close>. \<^verbatim>\<open>t in chunk_lower\<close> is the substring test. Python floats are modelled as reals.
\<close>

definition keyword_hit :: "string \<Rightarrow> string \<Rightarrow> bool" where
  "keyword_hit chunk_lower t =
     (case map_of ACRONYM_EXPANSIONS t of
        Some expansion \<Rightarrow> sublist t chunk_lower \<or> sublist expansion chunk_lower
      | None \<Rightarrow> sublist t chunk_lower)"

definition keyword_boost :: "string fset \<Rightarrow> string \<Rightarrow> real" where
  "keyword_boost query_terms ctext =
     (if query_terms = {||} then 0
      else
        let chunk_lower = lower ctext;
            hits = fcard (ffilter (keyword_hit chunk_lower) query_terms)
        in (2 / 10) * (real hits / real (max 1 (fcard query_terms))))"


section \<open>Vector index and query engine (indexing.py)\<close>

datatype py_error = RuntimeError string | ValueError string | IndexError

text \<open>A chunk of the index: the chunker's fields and the name of the source document.\<close>

record index_chunk = chunk +
  chunk_source :: string

text \<open>
  \<^verbatim>\<open>TfidfVectorizer\<close> belongs to scikit-learn, not to this repository. The model follows
  the library for the vectorizer that \<^verbatim>\<open>build_vector_index\<close> builds,
  \<^verbatim>\<open>TfidfVectorizer(stop_words="english", ngram_range=(1, 2), preprocessor=_normalize_text)\<close>,
  as far as the terms of a document go. Two things of the library are parameters:
  \<open>lib_stop_words\<close>, its table of English stop words, and \<open>lib_weights\<close>, the matrix it
  computes from the terms of the documents.
\<close>

record 'm tfidf_lib =
  lib_stop_words :: "string list"
  lib_weights :: "string list list \<Rightarrow> 'm"

text \<open>
  The default token pattern of the library, \<^verbatim>\<open>(?u)\b\w\w+\b\<close>: the runs of two or more
  word characters.
\<close>

definition word_tokens :: "string \<Rightarrow> string list" where
  "word_tokens d = filter (\<lambda>t. 2 \<le> length t) (findall is_word d)"

text \<open>
  The n-grams for \<^verbatim>\<open>ngram_range=(1, 2)\<close>: the tokens, then every two neighbouring tokens
  joined by a space.
\<close>

definition word_ngrams :: "string list \<Rightarrow> string list" where
  "word_ngrams tokens = tokens @ map (\<lambda>(a, b). a @ '' '' @ b) (zip tokens (tl tokens))"

text \<open>
  The analyzer: the preprocessor given to the vectorizer replaces the library's own (so
  no lower-casing), then the token pattern, the stop words are dropped, then the n-grams.
\<close>

definition analyze :: "'m tfidf_lib \<Rightarrow> (string \<Rightarrow> string) \<Rightarrow> string \<Rightarrow> string list" where
  "analyze lib preprocessor doc =
     word_ngrams (filter (\<lambda>w. w \<notin> set (lib_stop_words lib)) (word_tokens (preprocessor doc)))"

text \<open>
  \<^verbatim>\<open>fit_transform\<close> analyzes every document, collects the vocabulary and raises
  \<^verbatim>\<open>ValueError\<close> when the vocabulary is empty. The vectorizer-state is the vocabulary (the
  library keeps it sorted; here it is in order of first occurrence).
\<close>

definition fit_transform ::
  "'m tfidf_lib \<Rightarrow> (string \<Rightarrow> string) \<Rightarrow> string list \<Rightarrow> py_error + (string list \<times> 'm)" where
  "fit_transform lib preprocessor corpus =
     (let docs = map (analyze lib preprocessor) corpus;
          vocabulary = remdups (concat docs)
      in if vocabulary = []
         then Inl (ValueError ''empty vocabulary; perhaps the documents only contain stop words'')
         else Inr (vocabulary, lib_weights lib docs))"

definition build_vector_index ::
  "'m tfidf_lib \<Rightarrow> 'a chunk_scheme list \<Rightarrow> py_error + (string list \<times> 'm)" where
  "build_vector_index lib chunks =
     (if chunks = [] then Inl (RuntimeError ''No chunks available to build index.'')
      else
        let corpus = map (\<lambda>c. normalize_text (chunk_text c)) chunks
        in fit_transform lib normalize_text corpus)"

text \<open>\<^verbatim>\<open>(chunks[i].get("qid") or "")\<close>\<close>

definition qid_or_empty :: "'a chunk_scheme \<Rightarrow> string" where
  "qid_or_empty c = (case chunk_qid c of None \<Rightarrow> [] | Some q \<Rightarrow> q)"

text \<open>The candidate positions of \<^verbatim>\<open>query_index\<close> (its lines 114 to 119).\<close>

definition filtered_idx :: "'a chunk_scheme list \<Rightarrow> string option \<Rightarrow> nat list" where
  "filtered_idx chunks question_id =
     (let idx = [0..<length chunks]
      in if truthy question_id then
           let qid_norm = lower (strip (the question_id))
           in filter (\<lambda>i. lower (qid_or_empty (chunks ! i)) = qid_norm) idx
         else idx)"

text \<open>
  The scoring loop: \<^verbatim>\<open>scores[i]\<close> raises \<^verbatim>\<open>IndexError\<close> when the matrix has fewer rows than
  there are chunks.
\<close>

fun score_loop ::
  "string fset \<Rightarrow> 'a chunk_scheme list \<Rightarrow> real list \<Rightarrow> nat list \<Rightarrow> py_error + (nat \<times> real) list" where
  "score_loop query_terms chunks scores [] = Inr []"
| "score_loop query_terms chunks scores (i # rest) =
     (let boost = keyword_boost query_terms (chunk_text (chunks ! i))
      in if i < length scores then
           (case score_loop query_terms chunks scores rest of
              Inl e \<Rightarrow> Inl e
            | Inr scored \<Rightarrow> Inr ((i, scores ! i + boost) # scored))
         else Inl IndexError)"

text \<open>\<^verbatim>\<open>xs[:k]\<close> for an integer \<open>k\<close>: a negative \<open>k\<close> counts from the end.\<close>

definition py_take :: "int \<Rightarrow> 'a list \<Rightarrow> 'a list" where
  "py_take k xs = (if 0 \<le> k then take (nat k) xs else take (length xs - nat (- k)) xs)"

text \<open>
  \<^verbatim>\<open>query_index\<close>. The fitted vectorizer and the matrix are used through one library call
  chain, \<^verbatim>\<open>linear_kernel(vectorizer.transform([q]), matrix).flatten()\<close>; it is the parameter
  \<open>similarity\<close>, which returns one score per row or raises. The sort is stable and
  descending in the combined score.
\<close>

definition query_index ::
  "(string fset \<Rightarrow> string list) \<Rightarrow> (string \<Rightarrow> py_error + real list) \<Rightarrow> string \<Rightarrow>
   'a chunk_scheme list \<Rightarrow> int \<Rightarrow> string option \<Rightarrow> py_error + 'a chunk_scheme list" where
  "query_index iter similarity question_text chunks top_k question_id =
     (let idx = filtered_idx chunks question_id
      in if idx = [] then Inr []
         else
           let query_terms = extract_query_terms question_text;
               expanded_query = expand_query iter question_text query_terms
           in case similarity expanded_query of
                Inl e \<Rightarrow> Inl e
              | Inr scores \<Rightarrow>
                  (case score_loop query_terms chunks scores idx of
                     Inl e \<Rightarrow> Inl e
                   | Inr scored \<Rightarrow>
                       let sorted = sort_key (\<lambda>(i, sc). - sc) scored
                       in Inr (map (\<lambda>(i, sc). chunks ! i)
                                 (filter (\<lambda>(i, sc). 0 < sc) (py_take top_k sorted)))))"

section \<open>Fallback tokenizer (retrieval.py)\<close>

definition RETRIEVAL_STOPWORDS :: "string list" where
  "RETRIEVAL_STOPWORDS =
     [''the'', ''and'', ''or'', ''to'', ''of'', ''a'', ''an'', ''in'', ''on'', ''for'', ''with'', ''by'',
      ''is'', ''are'', ''was'', ''were'', ''be'', ''been'', ''being'', ''that'', ''this'', ''these'',
      ''those'', ''as'', ''at'', ''from'', ''it'', ''its'', ''into'', ''over'', ''under'', ''between'',
      ''within'', ''without'', ''use'', ''used'', ''using'', ''can'', ''may'', ''will'', ''would'',
      ''should'', ''could'', ''do'', ''does'', ''did'', ''done'', ''what'', ''which'', ''how'', ''why'',
      ''explain'', ''describe'', ''identify'', ''state'', ''give'', ''define'', ''outline'',
      ''compare'', ''contrast'']"

text \<open>\<^verbatim>\<open>re.sub(r"[^a-z0-9\s]", " ", text)\<close>, character by character.\<close>

definition blank_other :: "char \<Rightarrow> char" where
  "blank_other c = (if is_lower_az c \<or> is_digit c \<or> is_space c then c else CHR '' '')"

text \<open>\<^verbatim>\<open>str.split()\<close>: the maximal runs of characters that are not whitespace.\<close>

definition split_ws :: "string \<Rightarrow> string list" where
  "split_ws s = findall (\<lambda>c. \<not> is_space c) s"

text \<open>\<^verbatim>\<open>_normalize\<close>, the same code in retrieval.py and answer_formatter.py, over the stop list
  of the module.\<close>

definition normalize_tokens :: "string list \<Rightarrow> string \<Rightarrow> string list" where
  "normalize_tokens stopwords s =
     filter (\<lambda>t. t \<noteq> [] \<and> t \<notin> set stopwords) (split_ws (map blank_other (lower s)))"

definition retrieval_normalize :: "string \<Rightarrow> string list" where
  "retrieval_normalize s = normalize_tokens RETRIEVAL_STOPWORDS s"

section \<open>Answer formatter (answer_formatter.py)\<close>

definition FORMATTER_STOPWORDS :: "string list" where
  "FORMATTER_STOPWORDS =
     [''the'', ''and'', ''or'', ''to'', ''of'', ''a'', ''an'', ''in'', ''on'', ''for'', ''with'', ''by'',
      ''is'', ''are'', ''was'', ''were'', ''be'', ''been'', ''being'', ''that'', ''this'', ''these'',
      ''those'', ''as'', ''at'', ''from'', ''it'', ''its'', ''into'', ''over'', ''under'', ''between'',
      ''within'', ''without'', ''use'', ''used'', ''using'', ''can'', ''may'', ''will'', ''would'',
      ''should'', ''could'', ''do'', ''does'', ''did'', ''done'', ''what'', ''which'', ''how'', ''why'']"

definition formatter_normalize :: "string \<Rightarrow> string list" where
  "formatter_normalize s = normalize_tokens FORMATTER_STOPWORDS s"

text \<open>\<^verbatim>\<open>Counter(tokens)\<close>: the counts, in the order in which the tokens first occur.\<close>

fun bump :: "string \<Rightarrow> (string \<times> nat) list \<Rightarrow> (string \<times> nat) list" where
  "bump t [] = [(t, 1)]"
| "bump t ((k, n) # rest) = (if k = t then (k, Suc n) # rest else (k, n) # bump t rest)"

definition counter :: "string list \<Rightarrow> (string \<times> nat) list" where
  "counter tokens = fold bump tokens []"

text \<open>\<^verbatim>\<open>Counter.most_common(n)\<close>: by descending count, ties in order of first occurrence.\<close>

definition most_common :: "int \<Rightarrow> (string \<times> nat) list \<Rightarrow> (string \<times> nat) list" where
  "most_common n counts = take (nat n) (sort_key (\<lambda>(t, c). - int c) counts)"

definition top_keywords :: "string \<Rightarrow> int \<Rightarrow> string list" where
  "top_keywords s max_terms = map fst (most_common max_terms (counter (formatter_normalize s)))"

definition depth_from_command_word :: "string \<Rightarrow> int option \<Rightarrow> int" where
  "depth_from_command_word command_word marks =
     (case marks of
        Some mk \<Rightarrow> max 2 (min 6 mk)
      | None \<Rightarrow>
          if command_word \<in> set [''identify'', ''state'', ''give'', ''define''] then 2
          else if command_word \<in> set [''describe'', ''outline'', ''compare'', ''contrast''] then 3
          else if command_word \<in> set [''explain'', ''discuss'', ''evaluate'', ''justify''] then 4
          else 3)"

text \<open>\<^verbatim>\<open>re.sub(r"\s+", " ", summary)\<close>: every whitespace run becomes one space.\<close>

function collapse_ws :: "string \<Rightarrow> string" where
  "collapse_ws [] = []"
| "collapse_ws (c # cs) =
     (if is_space c then CHR '' '' # collapse_ws (dropWhile is_space cs) else c # collapse_ws cs)"
  by pat_completeness auto
termination
  by (relation "measure length") (auto simp: le_imp_less_Suc length_dropWhile_le)

definition format_answer :: "string \<Rightarrow> string \<Rightarrow> int option \<Rightarrow> string list \<Rightarrow> string \<times> string" where
  "format_answer question_text command_word marks ms_chunks =
     (let combined = strip (join [CHR 0x0A, CHR 0x0A] ms_chunks)
      in if combined = [] then
           (''- Insufficient mark-scheme match found. Please refine the question text.'',
            ''I could not find a close match in the mark scheme.'')
         else
           let depth = depth_from_command_word command_word marks;
               keywords = top_keywords combined (depth + 2);
               exact_lines = map (\<lambda>kw. ''- '' @ kw) (take (nat depth) keywords);
               exact_answer = join [CHR 0x0A] exact_lines;
               summary = map (\<lambda>c. if c = CHR 0x0A then CHR '' '' else c) combined;
               summary = strip (collapse_ws summary);
               short_explanation =
                 take 240 summary @ (if 240 < length summary then ''...'' else [])
           in (exact_answer, short_explanation))"


section \<open>Notions used in the properties\<close>

text \<open>The offsets \<^verbatim>\<open>start\<close> and \<^verbatim>\<open>end\<close> of each round of the loop.\<close>

fun chunk_spans :: "string \<Rightarrow> re_match list \<Rightarrow> (nat \<times> nat) list" where
  "chunk_spans s [] = []"
| "chunk_spans s (m # ms) =
     (m_start m, (case ms of m' # _ \<Rightarrow> m_start m' | [] \<Rightarrow> length s)) # chunk_spans s ms"

text \<open>The spans tile the offsets from \<open>a\<close> to \<open>b\<close>: each is non-empty and starts where the
  one before ends.\<close>

fun tiles :: "nat \<Rightarrow> (nat \<times> nat) list \<Rightarrow> nat \<Rightarrow> bool" where
  "tiles a [] b = (a = b)"
| "tiles a ((i, j) # rest) b = (i = a \<and> i < j \<and> tiles j rest b)"

text \<open>Matches in text order, none before \<open>p\<close>, none overlapping, all inside the text.\<close>

fun in_order :: "string \<Rightarrow> nat \<Rightarrow> re_match list \<Rightarrow> bool" where
  "in_order s p [] = True"
| "in_order s p (m # ms) =
     (p \<le> m_start m \<and> m_start m < m_end m \<and> m_end m \<le> length s \<and> in_order s (m_end m) ms)"

text \<open>A query term is a hit for a chunk text, in the words of the specification.\<close>

definition term_is_hit :: "string \<Rightarrow> string \<Rightarrow> bool" where
  "term_is_hit ctext t =
     (sublist t (lower ctext) \<or>
      (t \<in> fst ` set ACRONYM_EXPANSIONS \<and>
       (sublist t (lower ctext) \<or> sublist (the (map_of ACRONYM_EXPANSIONS t)) (lower ctext))))"

text \<open>Two texts that agree up to the first letter r (of either case) of each.\<close>

inductive sim :: "string \<Rightarrow> string \<Rightarrow> bool" where
  sim_Nil: "sim [] []"
| sim_Cons: "sim xs ys \<Longrightarrow> sim (c # xs) (c # ys)"
| sim_r: "lower_char a = CHR ''r'' \<Longrightarrow> lower_char b = CHR ''r'' \<Longrightarrow> sim (a # xs) (b # ys)"

text \<open>
  A token of a text for a character class: a maximal non-empty run of characters of the
  class, that is, one that no character of the class precedes or follows.
\<close>

definition is_run :: "(char \<Rightarrow> bool) \<Rightarrow> string \<Rightarrow> string \<Rightarrow> bool" where
  "is_run P s t =
     (t \<noteq> [] \<and> list_all P t \<and>
      (\<exists>pre post. s = pre @ t @ post \<and> (pre = [] \<or> \<not> P (last pre)) \<and>
                   (post = [] \<or> \<not> P (hd post))))"

text \<open>The class \<^verbatim>\<open>[a-z0-9]\<close>.\<close>

definition is_lower_alnum :: "char \<Rightarrow> bool" where
  "is_lower_alnum c = (is_lower_az c \<or> is_digit c)"

text \<open>
  A chunk has a term for the vectorizer: its text, normalized when the corpus is built and
  again by the preprocessor, holds a token of two or more word characters that is not a
  stop word.
\<close>

definition has_term :: "'m tfidf_lib \<Rightarrow> 'a chunk_scheme \<Rightarrow> bool" where
  "has_term lib c =
     (\<exists>t. is_run is_word (normalize_text (normalize_text (chunk_text c))) t \<and> 2 \<le> length t \<and>
          t \<notin> set (lib_stop_words lib))"

section \<open>Properties of the chunker on concrete documents\<close>

text \<open>
  C2. The claim: every occurrence of digits (with the optional groups) is a chunk boundary
  wherever it occurs, also in the middle of running text. The pattern is anchored at the
  start of the text or at a newline, so the number in the running text below is no
  boundary and the document stays one chunk without qid; and the whitespace after a
  number belongs to the match, so a number alone on its line hides the number that starts
  the next line.
\<close>

theorem split_mid_text_number:
  "split_into_chunks ''Award 2 marks'' = [\<lparr>chunk_text = ''Award 2 marks'', chunk_qid = None\<rparr>]
   \<and> split_into_chunks (''1'' @ [CHR 0x0A] @ ''2 (a) Define'')
       = [\<lparr>chunk_text = ''1'' @ [CHR 0x0A] @ ''2 (a) Define'', chunk_qid = Some ''1''\<rparr>]"
  by code_simp

text \<open>
  C4. The claim: no returned chunk has a text that is empty after trimming, also for an
  empty document. Without a match the document is returned as one chunk whatever its
  trimmed text is, so the empty document gives a chunk with empty text.
\<close>

theorem split_empty_document:
  "split_into_chunks [] = [\<lparr>chunk_text = [], chunk_qid = None\<rparr>]
   \<and> split_into_chunks [CHR '' '', CHR 0x0A] = [\<lparr>chunk_text = [], chunk_qid = None\<rparr>]"
  by code_simp

lemma finditer_from_in_order: "in_order s p (finditer_from s p)"
proof (induction s p rule: finditer_from.induct)
  case (1 s p)
  show ?case
  proof (cases "length s < p")
    case True
    then show ?thesis by (simp add: finditer_from.simps)
  next
    case False
    show ?thesis
    proof (cases "match_at s p")
      case None
      have "in_order s p ms" if "in_order s (Suc p) ms" for ms
        using that by (cases ms) auto
      with 1(1) [OF False None] False None show ?thesis
        by (simp add: finditer_from.simps [of s p])
    next
      case (Some m)
      from match_at_span [OF Some] 1(2) [OF False Some] False Some show ?thesis
        by (simp add: finditer_from.simps [of s p])
    qed
  qed
qed

lemma in_order_tiles:
  "in_order s p (m # ms) \<Longrightarrow> tiles (m_start m) (chunk_spans s (m # ms)) (length s)"
proof (induction ms arbitrary: m p)
  case Nil
  then show ?case by simp
next
  case (Cons m' ms)
  from Cons.prems have "in_order s (m_end m) (m' # ms)" by simp
  from Cons.IH [OF this] Cons.prems show ?case by simp
qed

lemma tiles_concat:
  "tiles a spans b \<Longrightarrow> b \<le> length s \<Longrightarrow> concat (map (\<lambda>(i, j). slice s i j) spans) = slice s a b"
proof (induction a spans b rule: tiles.induct)
  case (1 a b)
  then show ?case by (simp add: slice_def)
next
  case (2 a i j rest b)
  then have ij: "i = a" "i < j" and t: "tiles j rest b" by simp_all
  have jb: "j \<le> b" using t by (induction j rest b rule: tiles.induct) auto
  have "slice s a j @ slice s j b = slice s a b"
  proof -
    have "take ((j - a) + (b - j)) (drop a s)
        = take (j - a) (drop a s) @ take (b - j) (drop (j - a) (drop a s))"
      by (rule take_add)
    moreover have "drop (j - a) (drop a s) = drop j s" using ij by simp
    moreover have "(j - a) + (b - j) = b - a" using ij jb by simp
    ultimately show ?thesis by (simp add: slice_def)
  qed
  with 2 ij t show ?case by simp
qed

lemma chunk_loop_spans:
  "map chunk_text (chunk_loop s ms) =
     filter (\<lambda>t. t \<noteq> []) (map (\<lambda>(i, j). strip (slice s i j)) (chunk_spans s ms))"
  by (induction ms) (auto simp: Let_def)

text \<open>
  C1, as stated, says that the slices start at offset 0 even when no identifier precedes
  the first chunk. The first chunk starts at the first match: the text before it is in no
  chunk.
\<close>

theorem chunks_cover_counterexample:
  "\<not> tiles 0 (chunk_spans (''ab'' @ [CHR 0x0A] @ ''1'') (finditer (''ab'' @ [CHR 0x0A] @ ''1'')))
        (length (''ab'' @ [CHR 0x0A] @ ''1''))
   \<and> split_into_chunks (''ab'' @ [CHR 0x0A] @ ''1'') = [\<lparr>chunk_text = ''1'', chunk_qid = Some ''1''\<rparr>]"
  by code_simp

text \<open>
  C1, amended. Without a match the one chunk is the whole trimmed text. With a match, the
  slices taken by the loop (before trimming) are non-empty, each starts where the one
  before ends, the first starts at the first match and the last ends at the end of the
  text, so together they are the text from the first match on; the chunks are their
  trimmed texts.
\<close>

theorem chunks_cover_from_first_match:
  "(finditer s = [] \<longrightarrow> split_into_chunks s = [\<lparr>chunk_text = strip s, chunk_qid = None\<rparr>])
   \<and> (finditer s \<noteq> [] \<longrightarrow>
        tiles (m_start (hd (finditer s))) (chunk_spans s (finditer s)) (length s)
        \<and> concat (map (\<lambda>(i, j). slice s i j) (chunk_spans s (finditer s)))
            = drop (m_start (hd (finditer s))) s
        \<and> map chunk_text (split_into_chunks s)
            = filter (\<lambda>t. t \<noteq> []) (map (\<lambda>(i, j). strip (slice s i j)) (chunk_spans s (finditer s))))"
proof (cases "finditer s")
  case Nil
  then show ?thesis by (simp add: split_into_chunks_def)
next
  case (Cons m ms)
  have "in_order s 0 (m # ms)" using finditer_from_in_order [of s 0] Cons by (simp add: finditer_def)
  then have t: "tiles (m_start m) (chunk_spans s (m # ms)) (length s)" by (rule in_order_tiles)
  from tiles_concat [OF t] have c: "concat (map (\<lambda>(i, j). slice s i j) (chunk_spans s (m # ms))) = drop (m_start m) s"
    by (simp add: slice_def)
  have "split_into_chunks s = chunk_loop s (m # ms)" using Cons by (simp add: split_into_chunks_def)
  with t c Cons chunk_loop_spans [of s "m # ms"] show ?thesis by simp
qed

theorem chunks_cover_from_first_match_witness:
  "concat (map (\<lambda>(i, j). slice (''ab'' @ [CHR 0x0A] @ ''1 x'' @ [CHR 0x0A] @ ''2 y'') i j)
     (chunk_spans (''ab'' @ [CHR 0x0A] @ ''1 x'' @ [CHR 0x0A] @ ''2 y'')
        (finditer (''ab'' @ [CHR 0x0A] @ ''1 x'' @ [CHR 0x0A] @ ''2 y''))))
   = [CHR 0x0A] @ ''1 x'' @ [CHR 0x0A] @ ''2 y''
   \<and> split_into_chunks [] = [\<lparr>chunk_text = strip [], chunk_qid = None\<rparr>]"
proof -
  have f: "finditer (''ab'' @ [CHR 0x0A] @ ''1 x'' @ [CHR 0x0A] @ ''2 y'')
     = [\<lparr>m_start = 2, m_end = 5, group1 = ''1'', group2 = None, group3 = None\<rparr>,
        \<lparr>m_start = 6, m_end = 9, group1 = ''2'', group2 = None, group3 = None\<rparr>]"
    by code_simp
  have g: "finditer [] = []" by code_simp
  from f chunks_cover_from_first_match [of "''ab'' @ [CHR 0x0A] @ ''1 x'' @ [CHR 0x0A] @ ''2 y''"]
    g chunks_cover_from_first_match [of "[]"]
  show ?thesis by simp
qed

section \<open>Properties of the text normalizer\<close>

lemma lower_char_r: "lower_char c = CHR ''r'' \<longleftrightarrow> c = CHR ''r'' \<or> c = CHR ''R''"
  by (simp add: lower_char_def upper_chars_def lower_chars_def)

lemma lower_char_e: "lower_char c = CHR ''e'' \<longleftrightarrow> c = CHR ''e'' \<or> c = CHR ''E''"
  by (simp add: lower_char_def upper_chars_def lower_chars_def)

lemma lower_char_lits [simp]:
  "lower_char (CHR ''r'') = CHR ''r''" "lower_char (CHR ''e'') = CHR ''e''"
  "lower_char (CHR ''a'') = CHR ''a''" "lower_char (CHR ''l'') = CHR ''l''"
  "lower_char (CHR ''t'') = CHR ''t''" "lower_char (CHR ''i'') = CHR ''i''"
  "lower_char (CHR ''m'') = CHR ''m''" "lower_char (CHR ''-'') = CHR ''-''"
  by (simp_all add: lower_char_def upper_chars_def lower_chars_def)

lemma r_is_word: "lower_char c = CHR ''r'' \<Longrightarrow> is_word c \<and> \<not> is_space c \<and> c \<noteq> CHR ''-''"
  by (auto simp: lower_char_r is_word_def is_space_def is_lower_az_def is_upper_az_def cp_def)

lemma e_is_word: "lower_char c = CHR ''e'' \<Longrightarrow> is_word c"
  by (auto simp: lower_char_e is_word_def is_lower_az_def is_upper_az_def cp_def)

lemma lits_classes [simp]:
  "\<not> is_space (CHR ''-'')" "\<not> is_space (CHR ''t'')" "\<not> is_space (CHR ''r'')"
  "\<not> is_word (CHR ''-'')" "is_word (CHR ''r'')" "is_word (CHR ''e'')"
  by (simp_all add: is_space_def is_word_def is_lower_az_def is_upper_az_def is_digit_def cp_def)

lemma lit_ic_ex: "lit_ic l xs = Some r \<Longrightarrow> \<exists>u. xs = u @ r \<and> map lower_char u = l"
proof (induction l xs rule: lit_ic.induct)
  case (1 xs)
  then show ?case by simp
next
  case (2 l ls)
  then show ?case by simp
next
  case (3 l ls x xs)
  then have "lower_char x = l" and "lit_ic ls xs = Some r" by (auto split: if_splits)
  with 3 obtain u where "xs = u @ r" "map lower_char u = ls" by auto
  then have "x # xs = (x # u) @ r \<and> map lower_char (x # u) = l # ls"
    using \<open>lower_char x = l\<close> by simp
  then show ?case by (rule exI)
qed

lemma lit_ic_split:
  assumes "lit_ic l xs = Some r"
  obtains u where "xs = u @ r" "map lower_char u = l"
  using lit_ic_ex [OF assms] by auto

lemma match_sep_split:
  assumes "match_sep pt xs = Some r"
  obtains u where "xs = u @ r" "u \<noteq> []" "\<forall>c \<in> set u. is_space c \<or> c = CHR ''-''"
proof (cases pt)
  case Real_dash_time
  with assms obtain r' where d: "dropWhile is_space xs = CHR ''-'' # r'"
    and r: "r = dropWhile is_space r'"
    by (auto split: list.splits if_splits)
  define u where "u = takeWhile is_space xs @ [CHR ''-''] @ takeWhile is_space r'"
  have "xs = takeWhile is_space xs @ dropWhile is_space xs" by simp
  also have "\<dots> = takeWhile is_space xs @ [CHR ''-''] @ (takeWhile is_space r' @ dropWhile is_space r')"
    unfolding d by simp
  finally have 1: "xs = u @ r" unfolding u_def r by simp
  have 2: "\<forall>c \<in> set u. is_space c \<or> c = CHR ''-''"
    unfolding u_def by (auto dest: set_takeWhileD)
  have 3: "u \<noteq> []" unfolding u_def by simp
  from 1 3 2 show thesis by (rule that)
next
  case Real_space_time
  with assms have t: "takeWhile is_space xs \<noteq> []" and r: "r = dropWhile is_space xs"
    by (auto split: if_splits)
  have 1: "xs = takeWhile is_space xs @ r" unfolding r by simp
  have 2: "\<forall>c \<in> set (takeWhile is_space xs). is_space c \<or> c = CHR ''-''"
    by (auto dest: set_takeWhileD)
  from 1 t 2 show thesis by (rule that)
qed

lemma match_pat_parts:
  assumes "match_pat pt pw xs = Some rest"
  obtains r1 r2 where "word_boundary pw xs" "lit_ic ''real'' xs = Some r1"
    "match_sep pt r1 = Some r2" "lit_ic ''time'' r2 = Some rest" "word_boundary True rest"
  using assms by (auto simp: match_pat_def split: if_splits option.splits)

lemma map_lower_not_r:
  assumes "map lower_char u = l" "CHR ''r'' \<notin> set l"
  shows "\<forall>x \<in> set u. lower_char x \<noteq> CHR ''r''"
proof
  fix x assume "x \<in> set u"
  then have "lower_char x \<in> set (map lower_char u)" by simp
  then have "lower_char x \<in> set l" by (simp only: assms(1))
  with assms(2) show "lower_char x \<noteq> CHR ''r''" by auto
qed

lemma match_pat_split:
  assumes "match_pat pt pw xs = Some rest"
  obtains c u where "xs = c # u @ rest" "lower_char c = CHR ''r''"
    "\<forall>x \<in> set u. lower_char x \<noteq> CHR ''r''" "8 \<le> length u" "is_word (last u)"
    "\<not> pw" "word_boundary True rest"
proof -
  from assms obtain r1 r2 where wb: "word_boundary pw xs" and 1: "lit_ic ''real'' xs = Some r1"
    and 2: "match_sep pt r1 = Some r2" and 3: "lit_ic ''time'' r2 = Some rest"
    and we: "word_boundary True rest"
    by (rule match_pat_parts)
  from 1 obtain u1 where u1: "xs = u1 @ r1" "map lower_char u1 = ''real''"
    by (rule lit_ic_split)
  from 2 obtain u2 where u2: "r1 = u2 @ r2" "u2 \<noteq> []"
    "\<forall>c \<in> set u2. is_space c \<or> c = CHR ''-''" by (rule match_sep_split)
  from 3 obtain u3 where u3: "r2 = u3 @ rest" "map lower_char u3 = ''time''"
    by (rule lit_ic_split)
  from u1(2) obtain c1 t1 where c1: "u1 = c1 # t1" "lower_char c1 = CHR ''r''"
    "map lower_char t1 = ''eal''" by (cases u1) auto
  define u where "u = t1 @ u2 @ u3"
  have xs: "xs = c1 # u @ rest" using u1(1) u2(1) u3(1) c1(1) by (simp add: u_def)
  have nr1: "\<forall>x \<in> set t1. lower_char x \<noteq> CHR ''r''"
    by (rule map_lower_not_r [OF c1(3)]) simp
  have nr2: "\<forall>x \<in> set u2. lower_char x \<noteq> CHR ''r''"
  proof
    fix x assume "x \<in> set u2"
    with u2(3) have "is_space x \<or> x = CHR ''-''" by (rule bspec)
    then show "lower_char x \<noteq> CHR ''r''" using r_is_word [of x] by auto
  qed
  have nr3: "\<forall>x \<in> set u3. lower_char x \<noteq> CHR ''r''"
    by (rule map_lower_not_r [OF u3(2)]) simp
  have n3: "u3 \<noteq> []" using u3(2) by auto
  then have "lower_char (last u3) = last (map lower_char u3)" by (simp add: last_map)
  then have "lower_char (last u3) = CHR ''e''" unfolding u3(2) by simp
  then have "is_word (last u3)" by (rule e_is_word)
  then have lw: "is_word (last u)" unfolding u_def using n3 by simp
  have "length (map lower_char t1) = length ''eal''" by (simp only: c1(3))
  then have "length t1 = 3" by simp
  moreover have "length (map lower_char u3) = length ''time''" by (simp only: u3(2))
  then have "length u3 = 4" by simp
  moreover have "1 \<le> length u2" using u2(2) by (cases u2) auto
  ultimately have len: "8 \<le> length u" unfolding u_def by simp
  have "is_word c1" using c1(2) r_is_word [of c1] by simp
  with wb xs have npw: "\<not> pw" by (simp add: word_boundary_def)
  have nr: "\<forall>x \<in> set u. lower_char x \<noteq> CHR ''r''"
    unfolding u_def using nr1 nr2 nr3 by auto
  from xs c1(2) nr len lw npw we show thesis by (rule that)
qed

lemma match_pat_True [simp]: "match_pat pt True xs = None"
proof (cases "match_pat pt True xs")
  case None
  then show ?thesis .
next
  case (Some rest)
  then obtain c u where "xs = c # u @ rest" "lower_char c = CHR ''r''"
    "\<forall>x \<in> set u. lower_char x \<noteq> CHR ''r''" "8 \<le> length u" "is_word (last u)"
    "\<not> True" "word_boundary True rest" by (rule match_pat_split)
  then show ?thesis by simp
qed

lemma match_pat_facts:
  assumes "match_pat pt pw xs = Some rest"
  shows "\<not> pw" and "word_boundary True rest" and "9 + length rest \<le> length xs"
    and "lower_char (hd xs) = CHR ''r''"
proof -
  from assms obtain c u where *: "xs = c # u @ rest" "lower_char c = CHR ''r''"
    "\<forall>x \<in> set u. lower_char x \<noteq> CHR ''r''" "8 \<le> length u" "is_word (last u)"
    "\<not> pw" "word_boundary True rest" by (rule match_pat_split)
  from * show "\<not> pw" and "word_boundary True rest" and "9 + length rest \<le> length xs"
    and "lower_char (hd xs) = CHR ''r''" by simp_all
qed

lemma match_pat_not_r: "lower_char c \<noteq> CHR ''r'' \<Longrightarrow> match_pat pt pw (c # cs) = None"
  by (simp add: match_pat_def)

lemma re_sub_copy:
  "\<forall>c \<in> set u. lower_char c \<noteq> CHR ''r'' \<Longrightarrow>
   re_sub pt pw (u @ r) = u @ re_sub pt (if u = [] then pw else is_word (last u)) r"
proof (induction u arbitrary: pw)
  case Nil
  then show ?case by simp
next
  case (Cons c u)
  then have "match_pat pt pw (c # u @ r) = None" by (simp add: match_pat_not_r)
  with Cons show ?case by simp
qed

lemma re_sub_copy_literal:
  "re_sub pt True (''eal-time'' @ zs) = ''eal-time'' @ re_sub pt True zs"
  using re_sub_copy [of "''eal-time''" pt True zs] by simp

lemma boundary_re_sub_True: "word_boundary True (re_sub pt True xs) = word_boundary True xs"
  by (cases xs) (simp_all add: word_boundary_def)

lemma re_sub_length: "length (re_sub pt pw xs) \<le> length xs"
proof (induction pt pw xs rule: re_sub.induct)
  case (1 pt pw)
  then show ?case by simp
next
  case (2 pt pw c cs)
  show ?case
  proof (cases "match_pat pt pw (c # cs)")
    case None
    with 2(1) show ?thesis by simp
  next
    case (Some rest)
    from match_pat_facts(3) [OF Some] 2(2) [OF Some] Some show ?thesis by simp
  qed
qed

lemma match_dash_literal:
  "word_boundary True ys \<Longrightarrow> match_pat Real_dash_time False (''real-time'' @ ys) = Some ys"
  by (simp add: match_pat_def word_boundary_def)

lemma match_space_literal: "match_pat Real_space_time False (''real-time'' @ ys) = None"
  by (simp add: match_pat_def word_boundary_def)

lemma re_sub_literal:
  assumes "word_boundary True ys"
  shows "re_sub pt False (''real-time'' @ ys) = ''real-time'' @ re_sub pt True ys"
proof (cases pt)
  case Real_dash_time
  with match_dash_literal [OF assms] show ?thesis by simp
next
  case Real_space_time
  with match_space_literal [of ys] re_sub_copy_literal [of pt ys] show ?thesis by simp
qed

lemma sim_re_sub: "sim xs (re_sub pt pw xs)"
proof (induction pt pw xs rule: re_sub.induct)
  case (1 pt pw)
  show ?case by (simp add: sim_Nil)
next
  case (2 pt pw c cs)
  show ?case
  proof (cases "match_pat pt pw (c # cs)")
    case None
    with 2(1) show ?thesis by (simp add: sim_Cons)
  next
    case (Some rest)
    from match_pat_facts(4) [OF Some] have "lower_char c = CHR ''r''" by simp
    then have "sim (c # cs) (CHR ''r'' # ''eal-time'' @ re_sub pt True rest)"
      by (rule sim_r) simp
    with Some show ?thesis by simp
  qed
qed

lemma sim_lit_ic:
  "sim xs ys \<Longrightarrow> CHR ''r'' \<notin> set l \<Longrightarrow> rel_option sim (lit_ic l xs) (lit_ic l ys)"
proof (induction l arbitrary: xs ys)
  case Nil
  then show ?case by simp
next
  case (Cons a l)
  from Cons.prems(1) show ?case
  proof (cases rule: sim.cases)
    case sim_Nil
    then show ?thesis by simp
  next
    case (sim_Cons xs' ys' c)
    with Cons show ?thesis by simp
  next
    case (sim_r a' b' xs' ys')
    with Cons.prems(2) show ?thesis by auto
  qed
qed

lemma sim_dropWhile: "sim xs ys \<Longrightarrow> sim (dropWhile is_space xs) (dropWhile is_space ys)"
proof (induction rule: sim.induct)
  case sim_Nil
  show ?case by (simp add: sim.sim_Nil)
next
  case (sim_Cons xs ys c)
  then show ?case by (simp add: sim.sim_Cons)
next
  case (sim_r a b xs ys)
  then show ?case using r_is_word [of a] r_is_word [of b] by (simp add: sim.sim_r)
qed

lemma sim_takeWhile_Nil:
  assumes "sim xs ys"
  shows "(takeWhile is_space xs = []) = (takeWhile is_space ys = [])"
  using assms
proof (cases rule: sim.cases)
  case sim_Nil
  then show ?thesis by simp
next
  case (sim_Cons xs' ys' c)
  then show ?thesis by simp
next
  case (sim_r a b xs' ys')
  then show ?thesis using r_is_word [of a] r_is_word [of b] by simp
qed

lemma sim_match_sep:
  assumes s: "sim xs ys"
  shows "rel_option sim (match_sep pt xs) (match_sep pt ys)"
proof (cases pt)
  case Real_dash_time
  from s have d: "sim (dropWhile is_space xs) (dropWhile is_space ys)" by (rule sim_dropWhile)
  then show ?thesis
  proof (cases rule: sim.cases)
    case sim_Nil
    show ?thesis unfolding Real_dash_time match_sep.simps sim_Nil by simp
  next
    case (sim_Cons xs' ys' c)
    show ?thesis unfolding Real_dash_time match_sep.simps sim_Cons(1,2)
      using sim_Cons(3) by (simp add: sim_dropWhile)
  next
    case (sim_r a b xs' ys')
    show ?thesis unfolding Real_dash_time match_sep.simps sim_r(1,2)
      using r_is_word [of a] r_is_word [of b] sim_r(3,4) by simp
  qed
next
  case Real_space_time
  with sim_takeWhile_Nil [OF s] s show ?thesis by (simp add: sim_dropWhile)
qed

lemma sim_boundary:
  assumes "sim xs ys"
  shows "word_boundary True xs = word_boundary True ys"
  using assms
proof (cases rule: sim.cases)
  case sim_Nil
  then show ?thesis by simp
next
  case (sim_Cons xs' ys' c)
  then show ?thesis by (simp add: word_boundary_def)
next
  case (sim_r a b xs' ys')
  then show ?thesis using r_is_word [of a] r_is_word [of b] by (simp add: word_boundary_def)
qed

lemma rel_option_NoneD: "rel_option R None y \<Longrightarrow> y = None"
  by (cases y) auto

lemma rel_option_SomeD:
  assumes "rel_option R (Some x) y"
  obtains y' where "y = Some y'" "R x y'"
  using assms by (cases y) auto

lemma sim_match_pat:
  assumes "sim xs ys"
  shows "rel_option sim (match_pat pt pw (c # xs)) (match_pat pt pw (c # ys))"
proof (cases "word_boundary pw (c # xs) \<and> lower_char c = CHR ''r''")
  case False
  then show ?thesis by (auto simp: match_pat_def word_boundary_def)
next
  case True
  then have wb: "word_boundary pw (c # ys)" by (simp add: word_boundary_def)
  have 1: "rel_option sim (lit_ic ''eal'' xs) (lit_ic ''eal'' ys)"
    using assms by (rule sim_lit_ic) simp
  show ?thesis
  proof (cases "lit_ic ''eal'' xs")
    case None
    with 1 have "lit_ic ''eal'' ys = None" by (simp add: rel_option_NoneD)
    with None True wb show ?thesis by (simp add: match_pat_def)
  next
    case x1: (Some x1)
    with 1 obtain y1 where y1: "lit_ic ''eal'' ys = Some y1" "sim x1 y1"
      by (auto elim: rel_option_SomeD)
    have 2: "rel_option sim (match_sep pt x1) (match_sep pt y1)"
      using y1(2) by (rule sim_match_sep)
    show ?thesis
    proof (cases "match_sep pt x1")
      case None
      with 2 have "match_sep pt y1 = None" by (simp add: rel_option_NoneD)
      with None x1 y1 True wb show ?thesis by (simp add: match_pat_def)
    next
      case x2: (Some x2)
      with 2 obtain y2 where y2: "match_sep pt y1 = Some y2" "sim x2 y2"
        by (auto elim: rel_option_SomeD)
      have 3: "rel_option sim (lit_ic ''time'' x2) (lit_ic ''time'' y2)"
        using y2(2) by (rule sim_lit_ic) simp
      show ?thesis
      proof (cases "lit_ic ''time'' x2")
        case None
        with 3 have "lit_ic ''time'' y2 = None" by (simp add: rel_option_NoneD)
        with None x1 x2 y1 y2 True wb show ?thesis by (simp add: match_pat_def)
      next
        case x3: (Some x3)
        with 3 obtain y3 where y3: "lit_ic ''time'' y2 = Some y3" "sim x3 y3"
          by (auto elim: rel_option_SomeD)
        from sim_boundary [OF y3(2)] x1 x2 x3 y1 y2 y3 True wb
        show ?thesis by (simp add: match_pat_def)
      qed
    qed
  qed
qed

lemma no_new_match:
  assumes "match_pat pt pw (c # cs) = None"
  shows "match_pat pt pw (c # re_sub pt' pw' cs) = None"
proof -
  have "rel_option sim (match_pat pt pw (c # cs)) (match_pat pt pw (c # re_sub pt' pw' cs))"
    by (rule sim_match_pat) (rule sim_re_sub)
  then show ?thesis unfolding assms by (rule rel_option_NoneD)
qed

lemma re_sub_idem: "re_sub pt pw (re_sub pt pw xs) = re_sub pt pw xs"
proof (induction pt pw xs rule: re_sub.induct)
  case (1 pt pw)
  show ?case by simp
next
  case (2 pt pw c cs)
  show ?case
  proof (cases "match_pat pt pw (c # cs)")
    case None
    from no_new_match [OF None] have "match_pat pt pw (c # re_sub pt (is_word c) cs) = None" .
    with None 2(1) show ?thesis by simp
  next
    case (Some rest)
    from match_pat_facts(1,2) [OF Some] have pw: "\<not> pw" and wb: "word_boundary True rest" .
    from wb have "word_boundary True (re_sub pt True rest)" by (simp add: boundary_re_sub_True)
    from re_sub_literal [OF this] 2(2) [OF Some] Some pw show ?thesis by simp
  qed
qed

lemma space_match_no_dash_match:
  assumes "match_pat Real_space_time pw y = Some rest"
  shows "match_pat Real_dash_time pw y = None"
proof -
  from assms obtain r1 r2 where wb: "word_boundary pw y" and 1: "lit_ic ''real'' y = Some r1"
    and 2: "match_sep Real_space_time r1 = Some r2" and 3: "lit_ic ''time'' r2 = Some rest"
    and we: "word_boundary True rest"
    by (rule match_pat_parts)
  from 2 have r2: "r2 = dropWhile is_space r1" by (auto split: if_splits)
  from 3 obtain u where u: "r2 = u @ rest" "map lower_char u = ''time''" by (rule lit_ic_split)
  from u(2) obtain t u' where "u = t # u'" "lower_char t = CHR ''t''" by (cases u) auto
  with u(1) have t: "r2 = t # u' @ rest" "lower_char t = CHR ''t''" by simp_all
  then have "t \<noteq> CHR ''-''" by auto
  with t(1) r2 have "match_sep Real_dash_time r1 = None" by simp
  with 1 show ?thesis by (simp add: match_pat_def)
qed

lemma dash_fixed_literal:
  assumes m: "match_pat Real_dash_time pw y = Some rest"
    and f: "re_sub Real_dash_time pw y = y"
  shows "y = ''real-time'' @ rest \<and> re_sub Real_dash_time True rest = rest"
proof -
  from m obtain c u where y: "y = c # u @ rest" and "lower_char c = CHR ''r''"
    and "\<forall>x \<in> set u. lower_char x \<noteq> CHR ''r''" and len: "8 \<le> length u"
    and "is_word (last u)" and "\<not> pw" and "word_boundary True rest"
    by (rule match_pat_split)
  from y m have r: "re_sub Real_dash_time pw y = ''real-time'' @ re_sub Real_dash_time True rest"
    by simp
  with f have e: "''real-time'' @ re_sub Real_dash_time True rest = (c # u) @ rest"
    using y by simp
  then have "length (''real-time'' @ re_sub Real_dash_time True rest) = length ((c # u) @ rest)"
    by (rule arg_cong)
  with len re_sub_length [of Real_dash_time True rest]
  have l: "length ''real-time'' = length (c # u)" by simp
  from iffD1 [OF append_eq_append_conv [OF disjI1 [OF l]] e]
  have "''real-time'' = c # u \<and> re_sub Real_dash_time True rest = rest" .
  with y show ?thesis by simp
qed

lemma dash_over_space_match:
  assumes "match_pat Real_space_time pw y = Some rest"
  obtains u where "y = u @ rest"
    "re_sub Real_dash_time pw y = u @ re_sub Real_dash_time True rest"
proof -
  from assms obtain c u where y: "y = c # u @ rest" and "lower_char c = CHR ''r''"
    and nr: "\<forall>x \<in> set u. lower_char x \<noteq> CHR ''r''" and len: "8 \<le> length u"
    and lw: "is_word (last u)" and "\<not> pw" and "word_boundary True rest"
    by (rule match_pat_split)
  from len have "u \<noteq> []" by auto
  with re_sub_copy [OF nr, of Real_dash_time "is_word c" rest] lw
  have "re_sub Real_dash_time (is_word c) (u @ rest) = u @ re_sub Real_dash_time True rest"
    by simp
  with space_match_no_dash_match [OF assms] y
  have "re_sub Real_dash_time pw y = (c # u) @ re_sub Real_dash_time True rest" by simp
  moreover from y have "y = (c # u) @ rest" by simp
  ultimately show thesis by (rule that [rotated])
qed

lemma dash_fixed_after_space:
  "pt = Real_space_time \<Longrightarrow> re_sub Real_dash_time pw y = y \<Longrightarrow>
   re_sub Real_dash_time pw (re_sub pt pw y) = re_sub pt pw y"
proof (induction pt pw y rule: re_sub.induct)
  case (1 pt pw)
  show ?case by simp
next
  case (2 pt pw c cs)
  note pt = \<open>pt = Real_space_time\<close>
  note fixed = \<open>re_sub Real_dash_time pw (c # cs) = c # cs\<close>
  show ?case
  proof (cases "match_pat pt pw (c # cs)")
    case (Some rest)
    from match_pat_facts(1,2) [OF Some] have pw: "\<not> pw" and wb: "word_boundary True rest" .
    from Some pt have "match_pat Real_space_time pw (c # cs) = Some rest" by simp
    then obtain u where "c # cs = u @ rest"
      "re_sub Real_dash_time pw (c # cs) = u @ re_sub Real_dash_time True rest"
      by (rule dash_over_space_match)
    with fixed have "re_sub Real_dash_time True rest = rest" by simp
    from 2(2) [OF Some pt this]
    have ih: "re_sub Real_dash_time True (re_sub pt True rest) = re_sub pt True rest" .
    from wb have "word_boundary True (re_sub pt True rest)" by (simp add: boundary_re_sub_True)
    from re_sub_literal [OF this, of Real_dash_time] ih Some pw show ?thesis by simp
  next
    case None
    show ?thesis
    proof (cases "match_pat Real_dash_time pw (c # cs)")
      case dn: None
      with fixed have "re_sub Real_dash_time (is_word c) cs = cs" by simp
      from 2(1) [OF None pt this]
      have ih: "re_sub Real_dash_time (is_word c) (re_sub pt (is_word c) cs)
                  = re_sub pt (is_word c) cs" .
      from no_new_match [OF dn]
      have "match_pat Real_dash_time pw (c # re_sub pt (is_word c) cs) = None" .
      with None ih show ?thesis by simp
    next
      case ds: (Some rest)
      from match_pat_facts(1,2) [OF ds] have pw: "\<not> pw" and wb: "word_boundary True rest" .
      from dash_fixed_literal [OF ds fixed]
      have lit: "c # cs = ''real-time'' @ rest" and fr: "re_sub Real_dash_time True rest = rest"
        by simp_all
      from lit have c: "c = CHR ''r''" and cs: "cs = ''eal-time'' @ rest" by simp_all
      have "re_sub Real_dash_time (is_word c) cs = cs"
        unfolding c cs using re_sub_copy_literal [of Real_dash_time rest] fr by simp
      from 2(1) [OF None pt this]
      have "re_sub Real_dash_time True (re_sub pt True cs) = re_sub pt True cs"
        unfolding c by simp
      then have ih: "re_sub Real_dash_time True (re_sub pt True rest) = re_sub pt True rest"
        unfolding cs re_sub_copy_literal by simp
      from wb have "word_boundary True (re_sub pt True rest)" by (simp add: boundary_re_sub_True)
      from re_sub_literal [OF this, of Real_dash_time] ih
      have "re_sub Real_dash_time False (''real-time'' @ re_sub pt True rest)
              = ''real-time'' @ re_sub pt True rest" by simp
      moreover have "re_sub pt pw (c # cs) = ''real-time'' @ re_sub pt True rest"
        using None unfolding c cs using re_sub_copy_literal [of pt rest] by simp
      ultimately show ?thesis using pw by simp
    qed
  qed
qed

text \<open>
  C8. The normalizer is idempotent: the first substitution leaves only matches of its
  pattern that are already the canonical text, the second creates no other, and the
  second pattern does not match in the canonical text.
\<close>

theorem normalize_text_idempotent: "normalize_text (normalize_text x) = normalize_text x"
proof -
  define d where "d = re_sub Real_dash_time False x"
  have "re_sub Real_dash_time False d = d" unfolding d_def by (rule re_sub_idem)
  then have "re_sub Real_dash_time False (re_sub Real_space_time False d)
               = re_sub Real_space_time False d"
    by (rule dash_fixed_after_space [OF refl])
  then show ?thesis unfolding normalize_text_def d_def [symmetric] by (simp add: re_sub_idem)
qed

theorem normalize_text_idempotent_witness:
  "normalize_text (normalize_text ''A Real - Time and real   time OS'') = ''A real-time and real-time OS''"
proof -
  have "normalize_text ''A Real - Time and real   time OS'' = ''A real-time and real-time OS''"
    by code_simp
  with normalize_text_idempotent [of "''A Real - Time and real   time OS''"] show ?thesis by simp
qed

section \<open>Properties of the query terms\<close>

lemma is_run_Nil: "\<not> is_run P [] t"
  by (simp add: is_run_def)

lemma is_run_skip:
  assumes "\<not> P c"
  shows "is_run P (c # cs) t = is_run P cs t"
proof
  assume "is_run P (c # cs) t"
  then obtain pre post where t: "t \<noteq> []" "list_all P t" and s: "c # cs = pre @ t @ post"
    and pre: "pre = [] \<or> \<not> P (last pre)" and post: "post = [] \<or> \<not> P (hd post)"
    unfolding is_run_def by auto
  have "pre \<noteq> []"
  proof
    assume "pre = []"
    with s t(1) have "hd t = c" by (cases t) auto
    with t assms show False by (cases t) auto
  qed
  then obtain pre' where p: "pre = c # pre'" using s by (cases pre) auto
  with s have "cs = pre' @ t @ post" by simp
  moreover have "pre' = [] \<or> \<not> P (last pre')" using pre p by auto
  ultimately show "is_run P cs t" unfolding is_run_def using t post by blast
next
  assume "is_run P cs t"
  then obtain pre post where t: "t \<noteq> []" "list_all P t" and s: "cs = pre @ t @ post"
    and pre: "pre = [] \<or> \<not> P (last pre)" and post: "post = [] \<or> \<not> P (hd post)"
    unfolding is_run_def by auto
  have "c # cs = (c # pre) @ t @ post" using s by simp
  moreover have "c # pre = [] \<or> \<not> P (last (c # pre))" using pre assms by auto
  ultimately show "is_run P (c # cs) t" unfolding is_run_def using t post by blast
qed

lemma last_dropWhile:
  "xs \<noteq> [] \<Longrightarrow> \<not> P (last xs) \<Longrightarrow> dropWhile P xs \<noteq> [] \<and> last (dropWhile P xs) = last xs"
  by (induction xs) (auto split: if_splits)

lemma takeWhile_run:
  assumes "list_all P t" "post = [] \<or> \<not> P (hd post)"
  shows "takeWhile P (t @ post) = t"
proof -
  have "takeWhile P post = []" using assms(2) by (cases post) auto
  with assms(1) show ?thesis by (simp add: list_all_iff)
qed

lemma is_run_take:
  assumes "P c"
  shows "is_run P (c # cs) t = (t = takeWhile P (c # cs) \<or> is_run P (dropWhile P cs) t)"
proof -
  define u where "u = takeWhile P (c # cs)"
  define v where "v = dropWhile P cs"
  have uv: "c # cs = u @ v" and u: "u \<noteq> []" "list_all P u"
    using assms unfolding u_def v_def by (auto simp: list_all_iff dest: set_takeWhileD)
  have v: "v = [] \<or> \<not> P (hd v)" unfolding v_def using hd_dropWhile [of P cs] by auto
  have dv: "dropWhile P (c # cs) = v" using assms by (simp add: v_def)
  show ?thesis unfolding u_def [symmetric] v_def [symmetric]
  proof
    assume "is_run P (c # cs) t"
    then obtain pre post where t: "t \<noteq> []" "list_all P t" and s: "c # cs = pre @ t @ post"
      and pre: "pre = [] \<or> \<not> P (last pre)" and post: "post = [] \<or> \<not> P (hd post)"
      unfolding is_run_def by auto
    show "t = u \<or> is_run P v t"
    proof (cases "pre = []")
      case True
      with s have "takeWhile P (c # cs) = takeWhile P (t @ post)" by simp
      with takeWhile_run [OF t(2) post] show ?thesis by (simp add: u_def)
    next
      case False
      with pre have np: "\<not> P (last pre)" by simp
      from False have "last pre \<in> set pre" by simp
      from this np have "dropWhile P (pre @ t @ post) = dropWhile P pre @ t @ post"
        by (rule dropWhile_append1)
      with s dv have "v = dropWhile P pre @ t @ post" by simp
      moreover from last_dropWhile [where xs = pre and P = P, OF False np]
      have "dropWhile P pre = [] \<or> \<not> P (last (dropWhile P pre))" using np by simp
      ultimately have "is_run P v t" unfolding is_run_def using t post by blast
      then show ?thesis ..
    qed
  next
    assume "t = u \<or> is_run P v t"
    then show "is_run P (c # cs) t"
    proof
      assume "t = u"
      with uv have "c # cs = [] @ t @ v" by simp
      with u v \<open>t = u\<close> show ?thesis unfolding is_run_def by blast
    next
      assume "is_run P v t"
      then obtain pre post where t: "t \<noteq> []" "list_all P t" and s: "v = pre @ t @ post"
        and pre: "pre = [] \<or> \<not> P (last pre)" and post: "post = [] \<or> \<not> P (hd post)"
        unfolding is_run_def by auto
      have "pre \<noteq> []"
      proof
        assume "pre = []"
        with s t have "v \<noteq> [] \<and> P (hd v)" by (cases t) auto
        with v show False by simp
      qed
      with pre have "u @ pre = [] \<or> \<not> P (last (u @ pre))" by simp
      moreover have "c # cs = (u @ pre) @ t @ post" using uv s by simp
      ultimately show ?thesis unfolding is_run_def using t post by blast
    qed
  qed
qed

lemma findall_runs: "set (findall P s) = {t. is_run P s t}"
proof (induction P s rule: findall.induct)
  case (1 P)
  show ?case by (simp add: is_run_Nil)
next
  case (2 P c cs)
  show ?case
  proof (cases "P c")
    case True
    with 2(1) [OF True] is_run_take [of P c cs] show ?thesis by auto
  next
    case False
    with 2(2) [OF False] is_run_skip [of P c cs] show ?thesis by auto
  qed
qed

lemma findall_map:
  "\<forall>x. P (f x) = Q x \<Longrightarrow> \<forall>x. Q x \<longrightarrow> f x = x \<Longrightarrow> findall P (map f s) = findall Q s"
proof (induction Q s rule: findall.induct)
  case (1 Q)
  show ?case by simp
next
  case (2 Q c cs)
  note pq = \<open>\<forall>x. P (f x) = Q x\<close> and fq = \<open>\<forall>x. Q x \<longrightarrow> f x = x\<close>
  have pf: "P \<circ> f = Q" by (rule ext) (simp add: pq)
  show ?case
  proof (cases "Q c")
    case True
    have "map f (takeWhile Q cs) = takeWhile Q cs"
      by (rule map_idI) (use fq in \<open>auto dest: set_takeWhileD\<close>)
    then have "takeWhile P (map f cs) = takeWhile Q cs" by (simp add: takeWhile_map pf)
    moreover have "dropWhile P (map f cs) = map f (dropWhile Q cs)"
      by (simp add: dropWhile_map pf)
    moreover have fc: "f c = c" using True fq by simp
    moreover have "P c" using pq [rule_format, of c] fc True by simp
    ultimately show ?thesis using True 2(1) [OF True pq fq] by simp
  next
    case False
    then have "\<not> P (f c)" using pq by simp
    with False 2(2) [OF False pq fq] show ?thesis by simp
  qed
qed

lemma add_terms_set:
  "fset (add_terms ts acc) = fset acc \<union> {t \<in> set ts. 2 \<le> length t \<and> t |\<notin>| QUERY_NOISE_TERMS}"
  by (induction ts arbitrary: acc) auto

lemma blank_other_class: "(\<not> is_space (blank_other x)) = is_lower_alnum x"
  by (auto simp: blank_other_def is_lower_alnum_def is_space_def is_lower_az_def is_digit_def
      cp_def Let_def)

lemma blank_other_id: "is_lower_alnum x \<Longrightarrow> blank_other x = x"
  by (auto simp: blank_other_def is_lower_alnum_def)

lemma split_ws_blank: "split_ws (map blank_other s) = findall is_lower_alnum s"
  unfolding split_ws_def by (rule findall_map) (simp_all add: blank_other_class blank_other_id)

text \<open>
  C3, as stated, says that the stop list, with command words such as explain, is removed
  from the query terms of the keyword boost, and that the fallback scorer uses the same
  tokens. The term extraction removes only the three noise words, so explain, the and of
  stay; the fallback tokenizer removes the stop list but keeps one-letter tokens and
  splits at hyphens.
\<close>

theorem query_terms_counterexample:
  "extract_query_terms ''Explain the role of RAM'' = {|''explain'', ''the'', ''of'', ''ram''|}
   \<and> ''explain'' \<in> set RETRIEVAL_STOPWORDS
   \<and> retrieval_normalize ''explain b real-time'' = [''b'', ''real'', ''time'']"
  by code_simp

text \<open>
  C3, amended. The query terms of the keyword boost are exactly the tokens of the
  lower-cased question for the class of letters, digits and hyphen that have at least two
  characters and are not one of the noise words purpose, function, role. The tokens of the
  fallback scorer are exactly the tokens of the lower-cased text for the class of
  lower-case letters and digits that are not in the stop list.
\<close>

theorem query_terms_are_tokens:
  "fset (extract_query_terms q)
     = {t. is_run is_term_char (lower q) t \<and> 2 \<le> length t \<and> t |\<notin>| QUERY_NOISE_TERMS}
   \<and> set (retrieval_normalize q)
     = {t. is_run is_lower_alnum (lower q) t \<and> t \<notin> set RETRIEVAL_STOPWORDS}"
proof
  show "fset (extract_query_terms q)
     = {t. is_run is_term_char (lower q) t \<and> 2 \<le> length t \<and> t |\<notin>| QUERY_NOISE_TERMS}"
    by (simp add: extract_query_terms_def add_terms_set findall_runs)
next
  have "t \<noteq> []" if "is_run is_lower_alnum (lower q) t" for t
    using that by (simp add: is_run_def)
  then show "set (retrieval_normalize q)
     = {t. is_run is_lower_alnum (lower q) t \<and> t \<notin> set RETRIEVAL_STOPWORDS}"
    unfolding retrieval_normalize_def normalize_tokens_def split_ws_blank
    by (auto simp: findall_runs)
qed

theorem query_terms_are_tokens_witness:
  "is_run is_term_char (lower ''Explain the role of RAM'') ''ram''
   \<and> is_run is_lower_alnum (lower ''Explain the role of RAM'') ''ram''"
proof -
  have "''ram'' \<in> fset (extract_query_terms ''Explain the role of RAM'')" by code_simp
  moreover have "''ram'' \<in> set (retrieval_normalize ''Explain the role of RAM'')" by code_simp
  ultimately show ?thesis
    using query_terms_are_tokens [of "''Explain the role of RAM''"] by simp
qed

section \<open>Properties of the query engine\<close>

lemma keyword_hit_spec: "keyword_hit (lower ctext) t = term_is_hit ctext t"
proof (cases "map_of ACRONYM_EXPANSIONS t")
  case None
  then have "t \<notin> fst ` set ACRONYM_EXPANSIONS" by (simp add: map_of_eq_None_iff)
  with None show ?thesis by (simp add: keyword_hit_def term_is_hit_def)
next
  case (Some e)
  then have "t \<in> fst ` set ACRONYM_EXPANSIONS" by (meson domI domIff map_of_eq_None_iff)
  with Some show ?thesis by (auto simp: keyword_hit_def term_is_hit_def)
qed

lemma hits_card:
  "fcard (ffilter (keyword_hit (lower ctext)) terms) = card {t \<in> fset terms. term_is_hit ctext t}"
  proof -
  have "fset (ffilter (keyword_hit (lower ctext)) terms) = {t \<in> fset terms. term_is_hit ctext t}"
    by (auto simp: keyword_hit_spec)
  then show ?thesis by (simp only: fcard.rep_eq)
qed

lemma hits_le: "card {t \<in> fset terms. term_is_hit ctext t} \<le> card (fset terms)"
  by (rule card_mono) auto

text \<open>
  C7. The boost is 0 for an empty term set; otherwise it is 0.2 times the fraction of the
  query terms that are hits, a hit being a term that is a substring of the lower-cased
  chunk text or, for a term of the acronym table, whose acronym or expansion is one
  (\<open>term_is_hit\<close>). The boost lies between 0 and 0.2.
\<close>

theorem keyword_boost_formula:
  "keyword_boost terms ctext =
     (if terms = {||} then 0
      else (2 / 10) * (real (card {t \<in> fset terms. term_is_hit ctext t}) / real (card (fset terms))))
   \<and> 0 \<le> keyword_boost terms ctext \<and> keyword_boost terms ctext \<le> 2 / 10"
proof (cases "terms = {||}")
  case True
  then show ?thesis by (simp add: keyword_boost_def)
next
  case False
  define h where "h = card {t \<in> fset terms. term_is_hit ctext t}"
  define n where "n = card (fset terms)"
  have n: "0 < n" proof -
    have "fset terms \<noteq> {}" using False by (metis bot_fset.rep_eq fset_inject)
    then show ?thesis unfolding n_def by (simp add: card_gt_0_iff)
  qed
  have hn: "h \<le> n" unfolding h_def n_def by (rule hits_le)
  have kb: "keyword_boost terms ctext = (2 / 10) * (real h / real n)"
  proof -
    have "max 1 (fcard terms) = n" using n by (simp add: fcard.rep_eq n_def)
    then show ?thesis
      unfolding keyword_boost_def Let_def hits_card using False by (simp add: h_def)
  qed
  have "real h / real n \<le> 1" using hn n by simp
  moreover have "0 \<le> real h / real n" by simp
  ultimately have "0 \<le> (2 / 10) * (real h / real n) \<and> (2 / 10) * (real h / real n) \<le> 2 / 10"
    by simp
  with kb False show ?thesis unfolding h_def n_def by simp
qed

theorem keyword_boost_formula_witness:
  "keyword_boost {|''ram'', ''explain''|} ''Random access memory is volatile'' = 1 / 10
   \<and> keyword_boost {||} ''Random access memory'' = 0"
proof -
  have "keyword_boost {|''ram'', ''explain''|} ''Random access memory is volatile'' \<le> 2 / 10"
    using keyword_boost_formula [of "{|''ram'', ''explain''|}" "''Random access memory is volatile''"]
    by blast
  moreover have "keyword_boost {|''ram'', ''explain''|} ''Random access memory is volatile'' = 1 / 10"
    by code_simp
  moreover have "keyword_boost {||} ''Random access memory'' = 0"
    using keyword_boost_formula [of "{||}" "''Random access memory''"] by simp
  ultimately show ?thesis by simp
qed

lemma filtered_idx_no_match:
  assumes "\<forall>c \<in> set chunks. lower (qid_or_empty c) \<noteq> lower (strip f)" "f \<noteq> []"
  shows "filtered_idx chunks (Some f) = []"
  using assms by (auto simp: filtered_idx_def truthy_def filter_empty_conv)

text \<open>
  C5, as stated, asks only that no chunk's qid equals the filter. A chunk without qid has
  no qid to equal the filter of one space; the filter is trimmed to the empty string, the
  chunk is compared as the empty string and stays a candidate, so the similarity is
  computed: the chunk is returned, and a similarity that raises is raised.
\<close>

theorem blank_filter_counterexample:
  "chunk_qid \<lparr>chunk_text = ''ram chip'', chunk_qid = None, chunk_source = ''f''\<rparr> = None
   \<and> query_index (\<lambda>terms. []) (\<lambda>q. Inr [1 / 2]) ''ram''
        [\<lparr>chunk_text = ''ram chip'', chunk_qid = None, chunk_source = ''f''\<rparr>] 3 (Some '' '')
      = Inr [\<lparr>chunk_text = ''ram chip'', chunk_qid = None, chunk_source = ''f''\<rparr>]
   \<and> query_index (\<lambda>terms. []) (\<lambda>q. Inl IndexError) ''ram''
        [\<lparr>chunk_text = ''ram chip'', chunk_qid = None, chunk_source = ''f''\<rparr>] 3 (Some '' '')
      = Inl IndexError"
  by code_simp

text \<open>
  C5, amended. With a non-empty qid filter that no chunk's lower-cased qid equals (the
  filter lower-cased and trimmed), a chunk without qid being compared as the empty string,
  the query returns the empty sequence: whatever the similarity computation would return
  or raise, it is not consulted, and there is no unfiltered search.
\<close>

theorem query_filter_no_match:
  assumes "question_id \<noteq> []"
    and "\<forall>c \<in> set chunks.
           lower (case chunk_qid c of None \<Rightarrow> [] | Some q \<Rightarrow> q) \<noteq> lower (strip question_id)"
  shows "query_index iter similarity question_text chunks top_k (Some question_id) = Inr []"
proof -
  from assms(2) have "\<forall>c \<in> set chunks. lower (qid_or_empty c) \<noteq> lower (strip question_id)"
    by (simp add: qid_or_empty_def)
  from filtered_idx_no_match [OF this assms(1)] show ?thesis by (simp add: query_index_def)
qed

theorem query_filter_no_match_witness:
  "query_index (\<lambda>terms. []) (\<lambda>q. Inl IndexError) ''what is x''
     [\<lparr>chunk_text = ''x'', chunk_qid = Some ''1 (a)'', chunk_source = ''f''\<rparr>,
      \<lparr>chunk_text = ''y'', chunk_qid = None, chunk_source = ''f''\<rparr>] 3 (Some ''2'') = Inr []"
proof -
  have 1: "''2'' \<noteq> []" by simp
  have 2: "\<forall>c \<in> set [\<lparr>chunk_text = ''x'', chunk_qid = Some ''1 (a)'', chunk_source = ''f''\<rparr>,
                      \<lparr>chunk_text = ''y'', chunk_qid = None, chunk_source = ''f''\<rparr>].
      lower (case chunk_qid c of None \<Rightarrow> [] | Some q \<Rightarrow> q) \<noteq> lower (strip ''2'')"
    by (simp add: lower_def strip_def is_space_def cp_def)
  from query_filter_no_match [OF 1 2] show ?thesis .
qed




section \<open>Properties of the index builder\<close>

lemma word_ngrams_Nil: "(word_ngrams tokens = []) = (tokens = [])"
  by (cases tokens) (simp_all add: word_ngrams_def)

lemma analyze_has_term:
  "(analyze lib normalize_text (normalize_text (chunk_text c)) \<noteq> []) = has_term lib c"
proof -
  have "set (word_tokens d) = {t. is_run is_word d t \<and> 2 \<le> length t}" for d
    by (auto simp: word_tokens_def findall_runs)
  then show ?thesis
    by (auto simp: analyze_def word_ngrams_Nil filter_empty_conv has_term_def)
qed

lemma fit_transform_cases:
  "fit_transform lib normalize_text (map (\<lambda>c. normalize_text (chunk_text c)) chunks) =
     (if \<exists>c \<in> set chunks. has_term lib c
      then Inr (remdups (concat (map (\<lambda>c. analyze lib normalize_text (normalize_text (chunk_text c)))
                  chunks)),
                lib_weights lib (map (\<lambda>c. analyze lib normalize_text (normalize_text (chunk_text c)))
                  chunks))
      else Inl (ValueError ''empty vocabulary; perhaps the documents only contain stop words''))"
proof -
  have "(\<exists>c \<in> set chunks. has_term lib c)
      = (\<exists>c \<in> set chunks. analyze lib normalize_text (normalize_text (chunk_text c)) \<noteq> [])"
    by (simp add: analyze_has_term)
  then show ?thesis by (auto simp: fit_transform_def Let_def comp_def)
qed

text \<open>
  C6, as stated, says that the build succeeds on every non-empty collection. The document
  holding only the question identifier 1 (a) is split into one chunk with that text; it
  has no token of two word characters, so whatever the stop words are, the vocabulary is
  empty and the vectorizer raises its own error.
\<close>

theorem build_no_term_counterexample:
  "split_into_chunks ''1 (a)'' = [\<lparr>chunk_text = ''1 (a)'', chunk_qid = Some ''1 (a)''\<rparr>]
   \<and> (\<forall>stop. build_vector_index \<lparr>lib_stop_words = stop, lib_weights = (\<lambda>docs. ())\<rparr>
                [\<lparr>chunk_text = ''1 (a)'', chunk_qid = Some ''1 (a)''\<rparr>]
           = Inl (ValueError ''empty vocabulary; perhaps the documents only contain stop words''))"
proof -
  have 1: "split_into_chunks ''1 (a)'' = [\<lparr>chunk_text = ''1 (a)'', chunk_qid = Some ''1 (a)''\<rparr>]"
    by code_simp
  have 2: "word_tokens (normalize_text (normalize_text ''1 (a)'')) = []"
    by code_simp
  from 1 2 show ?thesis
    by (simp add: build_vector_index_def fit_transform_def analyze_def word_ngrams_def)
qed

text \<open>
  C6, amended. The build raises the error "No chunks available to build index." exactly
  when the collection is empty. For a non-empty collection it returns a vectorizer-state
  and matrix exactly when some chunk has a term for the vectorizer (\<open>has_term\<close>); when no
  chunk has one, it raises the vectorizer's empty-vocabulary \<^verbatim>\<open>ValueError\<close>.
\<close>

theorem build_error_iff_empty:
  "(build_vector_index lib chunks = Inl (RuntimeError ''No chunks available to build index.''))
     = (chunks = [])
   \<and> (\<exists>r. build_vector_index lib chunks = Inr r) = (\<exists>c \<in> set chunks. has_term lib c)
   \<and> (chunks \<noteq> [] \<and> \<not> (\<exists>c \<in> set chunks. has_term lib c) \<longrightarrow>
        build_vector_index lib chunks
          = Inl (ValueError ''empty vocabulary; perhaps the documents only contain stop words''))"
proof (cases "chunks = []")
  case True
  then show ?thesis by (simp add: build_vector_index_def)
next
  case False
  then have "build_vector_index lib chunks
      = fit_transform lib normalize_text (map (\<lambda>c. normalize_text (chunk_text c)) chunks)"
    by (simp add: build_vector_index_def)
  with False show ?thesis unfolding fit_transform_cases by simp
qed

theorem build_error_iff_empty_witness:
  "(\<forall>stop. build_vector_index \<lparr>lib_stop_words = stop, lib_weights = (\<lambda>docs. ())\<rparr>
             [\<lparr>chunk_text = ''1 (a)'', chunk_qid = Some ''1 (a)''\<rparr>]
           = Inl (ValueError ''empty vocabulary; perhaps the documents only contain stop words''))
   \<and> (\<forall>stop. ''memory'' \<in> set stop \<or>
          (\<exists>r. build_vector_index \<lparr>lib_stop_words = stop, lib_weights = (\<lambda>docs. ())\<rparr>
                  [\<lparr>chunk_text = ''1 (a) memory'', chunk_qid = Some ''1 (a)''\<rparr>] = Inr r))"
proof (intro conjI allI)
  fix stop :: "string list"
  let ?lib = "\<lparr>lib_stop_words = stop, lib_weights = (\<lambda>docs. ())\<rparr>"
  let ?c = "\<lparr>chunk_text = ''1 (a)'', chunk_qid = Some ''1 (a)''\<rparr>"
  have "word_tokens (normalize_text (normalize_text ''1 (a)'')) = []" by code_simp
  then have "\<not> has_term ?lib ?c"
    using analyze_has_term [of ?lib ?c] by (simp add: analyze_def word_ngrams_def)
  then have "[?c] \<noteq> [] \<and> \<not> (\<exists>c \<in> set [?c]. has_term ?lib c)" by simp
  with build_error_iff_empty [of ?lib "[?c]"]
  show "build_vector_index ?lib [?c]
      = Inl (ValueError ''empty vocabulary; perhaps the documents only contain stop words'')"
    by blast
next
  fix stop :: "string list"
  let ?lib = "\<lparr>lib_stop_words = stop, lib_weights = (\<lambda>docs. ())\<rparr>"
  let ?c = "\<lparr>chunk_text = ''1 (a) memory'', chunk_qid = Some ''1 (a)''\<rparr>"
  have w: "word_tokens (normalize_text (normalize_text ''1 (a) memory'')) = [''memory'']"
    by code_simp
  show "''memory'' \<in> set stop \<or> (\<exists>r. build_vector_index ?lib [?c] = Inr r)"
  proof (cases "''memory'' \<in> set stop")
    case True
    then show ?thesis ..
  next
    case False
    with w have "has_term ?lib ?c"
      using analyze_has_term [of ?lib ?c] by (simp add: analyze_def word_ngrams_def)
    then have "\<exists>c \<in> set [?c]. has_term ?lib c" by simp
    with build_error_iff_empty [of ?lib "[?c]"] have "\<exists>r. build_vector_index ?lib [?c] = Inr r"
      by simp
    then show ?thesis ..
  qed
qed

section \<open>Properties of the answer formatter\<close>

text \<open>
  C9. For every question text, command verb and marks value, the formatter given no chunk
  returns the fixed pair of the instruction to refine the question and the apology.
\<close>

theorem format_answer_no_chunks:
  "format_answer question_text command_word marks [] =
     (''- Insufficient mark-scheme match found. Please refine the question text.'',
      ''I could not find a close match in the mark scheme.'')"
  by (simp add: format_answer_def strip_def)

end
